theory Spec2Isabelle
  imports Main
begin

unbundle bit_operations_syntax

section \<open>Outcomes of a Python call\<close>

text \<open>
  A call of the library either returns a value, raises an exception, or runs forever.
  The three exceptions are the ones the interpreter and the sparse-matrix library raise
  on the paths of \<open>construct_Fock_operators.py\<close>: a negative shift count
  (\<open>ValueError\<close>), a non-integer dimension handed to \<open>range\<close> (\<open>TypeError\<close>) and
  a subscript outside the shape of a matrix (\<open>IndexError\<close>).
\<close>

datatype py_error = ValueError | TypeError | IndexError

datatype 'a outcome = Returns 'a | Raises py_error | Diverges

fun then_do :: "'a outcome \<Rightarrow> ('a \<Rightarrow> 'b outcome) \<Rightarrow> 'b outcome" where
  "then_do (Returns v) k = k v"
| "then_do (Raises e) k = Raises e"
| "then_do Diverges k = Diverges"

definition of_loop :: "'a option \<Rightarrow> 'a outcome" where
  "of_loop r = (case r of None \<Rightarrow> Diverges | Some v \<Rightarrow> Returns v)"

text \<open>Python's shifts on unbounded integers; a negative count raises.\<close>

definition py_lshift :: "int \<Rightarrow> int \<Rightarrow> int outcome" where
  "py_lshift x n = (if n < 0 then Raises ValueError else Returns (push_bit (nat n) x))"

definition py_rshift :: "int \<Rightarrow> int \<Rightarrow> int outcome" where
  "py_rshift x n = (if n < 0 then Raises ValueError else Returns (drop_bit (nat n) x))"

definition py_range :: "int \<Rightarrow> int list" where
  "py_range n = map int [0..<nat n]"

fun for_each :: "'a list \<Rightarrow> ('a \<Rightarrow> 's \<Rightarrow> 's outcome) \<Rightarrow> 's \<Rightarrow> 's outcome" where
  "for_each [] body s = Returns s"
| "for_each (x # xs) body s = then_do (body x s) (for_each xs body)"

section \<open>The sign factor\<close>

text \<open>
  The \<open>while\<close> loop of \<open>_anticommutation_factor\<close>: it runs as long as
  \<open>intermediate_states\<close> is not zero, flips the sign on an odd value and shifts right by
  one. On a negative value the shift never reaches zero, so the loop is a partial function
  and \<open>None\<close> stands for not returning.
\<close>

partial_function (option) sign_loop :: "int \<Rightarrow> int \<Rightarrow> int option" where
  "sign_loop intermediate_states sign_factor =
     (if intermediate_states = 0 then Some sign_factor
      else sign_loop (drop_bit 1 intermediate_states)
             (if 1 AND intermediate_states \<noteq> 0 then sign_factor * (- 1) else sign_factor))"

declare sign_loop.simps [code]

text \<open>Lines 24 to 26: the normalised positions, the mask and the masked window.\<close>

definition intermediate_states :: "int \<Rightarrow> int \<Rightarrow> int \<Rightarrow> int outcome" where
  "intermediate_states many_particle_state initial_position final_position =
     (let hi = max initial_position final_position;
          lo = min initial_position final_position
      in then_do (py_lshift (- 1) (hi - lo)) (\<lambda>shifted.
         let mask = NOT shifted
         in then_do (py_rshift many_particle_state lo) (\<lambda>t. Returns (t AND mask))))"

definition anticommutation_factor :: "int \<Rightarrow> int \<Rightarrow> int \<Rightarrow> int outcome" where
  "anticommutation_factor many_particle_state initial_position final_position =
     then_do (intermediate_states many_particle_state initial_position final_position)
       (\<lambda>w. of_loop (sign_loop w 1))"

text \<open>
  The number of set bits of \<open>state\<close> at the positions \<open>lo, \<dots>, hi - 1\<close>, which is what
  the specification says the sign depends on.
\<close>

definition window_popcount :: "int \<Rightarrow> nat \<Rightarrow> nat \<Rightarrow> nat" where
  "window_popcount state lo hi = length (filter (bit state) [lo..<hi])"

section \<open>Sparse matrices\<close>

text \<open>
  The matrices come from \<open>scipy.sparse\<close>, which is not part of the repository; the
  operations the source calls are modelled by what they compute. A \<open>dok_matrix\<close> is the
  mutable builder: a shape and a dictionary from (row, column) to the stored value.
  Entries are floating-point numbers in the library; every value that occurs here is
  \<open>-1\<close>, \<open>0\<close> or \<open>1\<close> (or a sum of at most one such product per entry),
  so integers represent them exactly.
\<close>

record dok_matrix =
  dok_rows :: int
  dok_cols :: int
  dok_items :: "int \<times> int \<rightharpoonup> int"

definition new_dok_matrix :: "int \<Rightarrow> int \<Rightarrow> dok_matrix" where
  "new_dok_matrix m n = \<lparr>dok_rows = m, dok_cols = n, dok_items = Map.empty\<rparr>"

text \<open>
  A subscript from \<open>-n\<close> to \<open>n - 1\<close> addresses one of \<open>n\<close> rows or columns, a negative
  one counting from the end; any other subscript raises \<open>IndexError\<close>.
\<close>

definition check_index :: "int \<Rightarrow> int \<Rightarrow> int outcome" where
  "check_index k n =
     (if - n \<le> k \<and> k < n then Returns (if k < 0 then k + n else k) else Raises IndexError)"

text \<open>Assignment \<open>temp_matrix[row, col] = value\<close>; a zero value is not stored.\<close>

definition dok_setitem :: "dok_matrix \<Rightarrow> int \<Rightarrow> int \<Rightarrow> int \<Rightarrow> dok_matrix outcome" where
  "dok_setitem d row col v =
     then_do (check_index row (dok_rows d)) (\<lambda>r.
     then_do (check_index col (dok_cols d)) (\<lambda>c.
       Returns (d\<lparr>dok_items :=
         (if v = 0 then (dok_items d)((r, c) := None) else (dok_items d)((r, c) \<mapsto> v))\<rparr>)))"

text \<open>
  A frozen (\<open>csc_matrix\<close>) matrix is its shape and its value at every position, zero where
  nothing is stored and outside the shape.
\<close>

record csc_matrix =
  nrows :: int
  ncols :: int
  entry :: "int \<Rightarrow> int \<Rightarrow> int"

definition tocsc :: "dok_matrix \<Rightarrow> csc_matrix" where
  "tocsc d = \<lparr>nrows = dok_rows d, ncols = dok_cols d,
     entry = (\<lambda>r c. case dok_items d (r, c) of None \<Rightarrow> 0 | Some v \<Rightarrow> v)\<rparr>"

text \<open>The Hermitian adjoint of a real matrix is its transpose.\<close>

definition getH :: "csc_matrix \<Rightarrow> csc_matrix" where
  "getH a = \<lparr>nrows = ncols a, ncols = nrows a, entry = (\<lambda>r c. entry a c r)\<rparr>"

text \<open>The product \<open>a * b\<close> of two sparse matrices; shapes that do not fit raise.\<close>

definition matmul :: "csc_matrix \<Rightarrow> csc_matrix \<Rightarrow> csc_matrix outcome" where
  "matmul a b =
     (if ncols a \<noteq> nrows b then Raises ValueError
      else Returns \<lparr>nrows = nrows a, ncols = ncols b,
        entry = (\<lambda>r c. if 0 \<le> r \<and> r < nrows a \<and> 0 \<le> c \<and> c < ncols b
                  then (\<Sum>k \<in> {0..<ncols a}. entry a r k * entry b k c) else 0)\<rparr>)"

text \<open>The sum \<open>a + b\<close>, the identity and the zero matrix, used to state the algebra.\<close>

definition matadd :: "csc_matrix \<Rightarrow> csc_matrix \<Rightarrow> csc_matrix outcome" where
  "matadd a b =
     (if nrows a \<noteq> nrows b \<or> ncols a \<noteq> ncols b then Raises ValueError
      else Returns \<lparr>nrows = nrows a, ncols = ncols a,
        entry = (\<lambda>r c. entry a r c + entry b r c)\<rparr>)"

definition identity :: "int \<Rightarrow> csc_matrix" where
  "identity n = \<lparr>nrows = n, ncols = n,
     entry = (\<lambda>r c. if 0 \<le> r \<and> r < n \<and> r = c then 1 else 0)\<rparr>"

definition zeros :: "int \<Rightarrow> csc_matrix" where
  "zeros n = \<lparr>nrows = n, ncols = n, entry = (\<lambda>r c. 0)\<rparr>"

definition anticommutator :: "csc_matrix \<Rightarrow> csc_matrix \<Rightarrow> csc_matrix outcome" where
  "anticommutator a b =
     then_do (matmul a b) (\<lambda>ab. then_do (matmul b a) (\<lambda>ba. matadd ab ba))"

section \<open>The operators\<close>

text \<open>
  One pass of the loop of \<open>creation\<close>: the sign factor is computed first, then the entry
  is written.
\<close>

definition creation_body :: "int \<Rightarrow> int \<Rightarrow> int \<Rightarrow> int \<Rightarrow> dok_matrix \<Rightarrow> dok_matrix outcome" where
  "creation_body basis_size state_index single_particle_state_mask state_to_act_on temp_matrix =
     (if NOT state_to_act_on AND single_particle_state_mask \<noteq> 0
      then then_do (anticommutation_factor state_to_act_on basis_size state_index) (\<lambda>v.
             dok_setitem temp_matrix (state_to_act_on OR single_particle_state_mask)
               state_to_act_on v)
      else Returns temp_matrix)"

text \<open>
  \<open>2**basis_size\<close> is a float for a negative \<open>basis_size\<close>, which neither the matrix
  constructor nor \<open>range\<close> accepts as a dimension.
\<close>

definition creation :: "int \<Rightarrow> int \<Rightarrow> csc_matrix outcome" where
  "creation basis_size state_index =
     (if basis_size < 0 then Raises TypeError
      else
        let many_particle_basis_size = 2 ^ nat basis_size;
            temp_matrix = new_dok_matrix many_particle_basis_size many_particle_basis_size
        in then_do (py_lshift 1 (state_index - 1)) (\<lambda>single_particle_state_mask.
           then_do (for_each (py_range many_particle_basis_size)
                      (creation_body basis_size state_index single_particle_state_mask)
                      temp_matrix) (\<lambda>temp_matrix.
           Returns (tocsc temp_matrix))))"

definition annihilation :: "int \<Rightarrow> int \<Rightarrow> csc_matrix outcome" where
  "annihilation basis_size state_index =
     then_do (creation basis_size state_index) (\<lambda>c. Returns (getH c))"

definition transition :: "int \<Rightarrow> int \<Rightarrow> int \<Rightarrow> csc_matrix outcome" where
  "transition basis_size out_state in_state =
     then_do (creation basis_size out_state) (\<lambda>c.
     then_do (annihilation basis_size in_state) (\<lambda>a. matmul c a))"

section \<open>The creation matrix in closed form\<close>

text \<open>
  The entries the loop of \<open>creation\<close> is shown to write, for \<open>n\<close> modes and the bit
  \<open>a = state_index - 1\<close>: column \<open>c\<close> holds the sign of the occupied modes above
  \<open>a\<close> in the row that has bit \<open>a\<close> switched on, when \<open>c\<close> has it off.
\<close>

definition sign_above :: "nat \<Rightarrow> nat \<Rightarrow> int \<Rightarrow> int" where
  "sign_above n a c = (- 1) ^ window_popcount c (Suc a) n"

definition creation_entry :: "nat \<Rightarrow> nat \<Rightarrow> int \<Rightarrow> int \<Rightarrow> int" where
  "creation_entry n a r c =
     (if 0 \<le> c \<and> c < 2 ^ n \<and> \<not> bit c a \<and> r = set_bit a c then sign_above n a c else 0)"

definition creation_matrix :: "nat \<Rightarrow> nat \<Rightarrow> csc_matrix" where
  "creation_matrix n a = \<lparr>nrows = 2 ^ n, ncols = 2 ^ n, entry = creation_entry n a\<rparr>"

text \<open>The value a returned matrix holds at a position.\<close>

definition entry_at :: "csc_matrix outcome \<Rightarrow> int \<Rightarrow> int \<Rightarrow> int outcome" where
  "entry_at m r c = then_do m (\<lambda>a. Returns (entry a r c))"

text \<open>
  The diagonal matrix of the occupation of bit \<open>a\<close>: at basis state \<open>s\<close> the diagonal
  holds 1 when bit \<open>a\<close> of \<open>s\<close> is set and 0 when it is not.
\<close>

definition occupation_matrix :: "nat \<Rightarrow> nat \<Rightarrow> csc_matrix" where
  "occupation_matrix n a = \<lparr>nrows = 2 ^ n, ncols = 2 ^ n,
     entry = (\<lambda>r c. if 0 \<le> r \<and> r < 2 ^ n \<and> r = c then (if bit r a then 1 else 0) else 0)\<rparr>"

section \<open>What the sign factor computes\<close>

lemma not_push_bit_minus_one: "NOT (push_bit d (- 1 :: int)) = mask d"
  by (rule bit_eqI) (auto simp add: bit_simps)

lemma filter_bit_shift:
  "length (filter (bit (drop_bit m (y::int))) [0..<d]) = length (filter (bit y) [m..<m + d])"
proof -
  have "[m..<m + d] = map (\<lambda>k. m + k) [0..<d]"
    using map_add_upt [of m d] by (simp add: add.commute)
  then show ?thesis
    by (simp add: filter_map o_def bit_drop_bit_eq)
qed

lemma sign_loop_take_bit:
  "sign_loop (take_bit d y) s = Some (s * (- 1) ^ length (filter (bit y) [0..<d]))"
proof (induction d arbitrary: y s)
  case 0
  show ?case by (subst sign_loop.simps) simp
next
  case (Suc d)
  let ?x = "take_bit (Suc d) y"
  have shift: "drop_bit 1 ?x = take_bit d (drop_bit 1 y)"
    by (simp add: drop_bit_take_bit)
  have odd_iff: "(1 AND ?x \<noteq> 0) = bit y 0"
    by (simp add: and.commute [of 1] and_one_eq bit_0 mod2_eq_if)
  have split: "[0..<Suc d] = 0 # map Suc [0..<d]"
    by (simp add: upt_conv_Cons map_Suc_upt del: upt_Suc)
  have cnt: "length (filter (bit y) [0..<Suc d]) =
      (if bit y 0 then 1 else 0) + length (filter (bit (drop_bit 1 y)) [0..<d])"
    unfolding split by (simp add: filter_map o_def bit_drop_bit_eq)
  show ?case
  proof (cases "?x = 0")
    case True
    then have "\<forall>k<Suc d. \<not> bit y k"
      by (metis bit_take_bit_iff bit_0_eq bot_apply bot_bool_def)
    then have "filter (bit y) [0..<Suc d] = []"
      by (auto simp add: filter_empty_conv simp del: upt_Suc)
    with True show ?thesis
      by (subst sign_loop.simps) (simp del: upt_Suc take_bit_Suc)
  next
    case False
    then show ?thesis
      apply (subst sign_loop.simps)
      apply (simp only: if_False shift odd_iff Suc.IH cnt)
      apply simp
      done
  qed
qed

lemma intermediate_states_value:
  assumes "0 \<le> p" "0 \<le> q"
  shows "intermediate_states s p q =
    Returns (take_bit (nat (max p q) - nat (min p q)) (drop_bit (nat (min p q)) s))"
proof -
  have d: "nat (max p q - min p q) = nat (max p q) - nat (min p q)"
    using assms by (simp add: nat_diff_distrib')
  have "\<not> max p q - min p q < 0" "\<not> min p q < 0"
    using assms by auto
  then show ?thesis
    by (simp add: intermediate_states_def py_lshift_def py_rshift_def Let_def
        not_push_bit_minus_one d take_bit_eq_mask del: max_less_iff_conj)
qed

lemma anticommutation_factor_value:
  assumes "0 \<le> p" "0 \<le> q"
  shows "anticommutation_factor s p q =
    Returns ((- 1) ^ window_popcount s (nat (min p q)) (nat (max p q)))"
proof -
  have le: "nat (min p q) \<le> nat (max p q)"
    by (simp add: nat_mono)
  have "length (filter (bit (drop_bit (nat (min p q)) s)) [0..<nat (max p q) - nat (min p q)])
      = window_popcount s (nat (min p q)) (nat (max p q))"
    unfolding window_popcount_def filter_bit_shift using le by simp
  then show ?thesis
    by (simp add: anticommutation_factor_def intermediate_states_value [OF assms]
        sign_loop_take_bit of_loop_def)
qed

text \<open>
  Claim C4. For a non-negative state and non-negative positions, the sign factor is \<open>-1\<close>
  when the bits of the state at the positions from the smaller position up to, and not
  including, the larger one hold an odd number of ones, and \<open>+1\<close> when they hold an
  even number; an empty window gives \<open>+1\<close>.
\<close>

theorem phase_parity:
  assumes "0 \<le> state" "0 \<le> p" "0 \<le> q"
  shows "anticommutation_factor state p q =
    Returns (if odd (window_popcount state (nat (min p q)) (nat (max p q))) then - 1 else 1)"
  using anticommutation_factor_value [OF assms(2,3), of state]
  by (simp add: uminus_power_if)

theorem phase_parity_witness:
  "(0::int) \<le> 5 \<and> (0::int) \<le> 3 \<and> (0::int) \<le> 0 \<and>
   anticommutation_factor 5 3 0 =
     Returns (if odd (window_popcount 5 (nat (min 3 0)) (nat (max 3 0))) then - 1 else 1)"
  using phase_parity [of 5 3 0] by simp

text \<open>
  Claim C10. For every integer state and non-negative positions the computation of the
  sign factor returns: the masked window is non-negative, shifting it right reaches zero
  after finitely many steps, and the loop ends with a sign.
\<close>

theorem phase_terminates:
  assumes "0 \<le> p" "0 \<le> q"
  shows "\<exists>w v n. intermediate_states s p q = Returns w \<and> 0 \<le> w \<and> drop_bit n w = 0
      \<and> sign_loop w 1 = Some v \<and> anticommutation_factor s p q = Returns v"
proof -
  let ?d = "nat (max p q) - nat (min p q)"
  let ?w = "take_bit ?d (drop_bit (nat (min p q)) s)"
  have "intermediate_states s p q = Returns ?w"
    by (rule intermediate_states_value [OF assms])
  moreover have "0 \<le> ?w" by simp
  moreover have "drop_bit ?d ?w = 0"
    by (simp add: drop_bit_take_bit)
  moreover obtain v where v: "sign_loop ?w 1 = Some v"
    by (simp add: sign_loop_take_bit)
  moreover have "anticommutation_factor s p q = Returns v"
    using v by (simp add: anticommutation_factor_def intermediate_states_value [OF assms] of_loop_def)
  ultimately show ?thesis by blast
qed

theorem phase_terminates_witness:
  "(0::int) \<le> 1 \<and> (0::int) \<le> 4 \<and>
   (\<exists>w v n. intermediate_states (- 6) 1 4 = Returns w \<and> 0 \<le> w \<and> drop_bit n w = 0
      \<and> sign_loop w 1 = Some v \<and> anticommutation_factor (- 6) 1 4 = Returns v)"
  using phase_terminates [of 1 4 "- 6"] by simp

section \<open>What the loop of creation builds\<close>

lemma set_bit_in_range:
  fixes c :: int
  assumes "0 \<le> c" "c < 2 ^ n" "a < n"
  shows "0 \<le> set_bit a c \<and> set_bit a c < 2 ^ n"
proof -
  have "(2::int) ^ a < 2 ^ n"
    using assms(3) by simp
  then have "c OR 2 ^ a < 2 ^ n"
    using assms by (intro OR_upper) auto
  then show ?thesis
    using assms by (simp add: set_bit_eq_or)
qed

lemma unset_bit_in_range:
  fixes r :: int
  assumes "0 \<le> r" "r < 2 ^ n"
  shows "0 \<le> unset_bit a r \<and> unset_bit a r < 2 ^ n"
  using assms unset_bit_less_eq [of a r] by simp

lemma mask_test: "(NOT (c::int) AND 2 ^ a \<noteq> 0) = (\<not> bit c a)"
proof -
  have "NOT c AND 2 ^ a = (if bit c a then 0 else 2 ^ a)"
    by (rule bit_eqI) (auto simp add: bit_simps)
  then show ?thesis by simp
qed

lemma check_index_in_range: "0 \<le> k \<Longrightarrow> k < n \<Longrightarrow> check_index k n = Returns k"
  by (auto simp add: check_index_def)

lemma creation_body_value:
  assumes "0 \<le> c" "c < 2 ^ n" "a < n"
    and "dok_rows d = 2 ^ n" "dok_cols d = 2 ^ n"
  shows "creation_body (int n) (int a + 1) (push_bit a 1) c d =
    Returns (if bit c a then d
      else d\<lparr>dok_items := (dok_items d)((set_bit a c, c) \<mapsto> sign_above n a c)\<rparr>)"
proof (cases "bit c a")
  case True
  then show ?thesis by (simp add: creation_body_def mask_test)
next
  case False
  have ends: "nat (min (int n) (int a + 1)) = Suc a" "nat (max (int n) (int a + 1)) = n"
    using assms(3) by auto
  have phase: "anticommutation_factor c (int n) (int a + 1) = Returns (sign_above n a c)"
    using anticommutation_factor_value [of "int n" "int a + 1" c]
    unfolding ends sign_above_def by simp
  have nz: "sign_above n a c \<noteq> 0"
    by (simp add: sign_above_def)
  have "check_index (set_bit a c) (2 ^ n) = Returns (set_bit a c)"
    using set_bit_in_range [OF assms(1-3)] by (intro check_index_in_range) auto
  then have row: "check_index (c OR 2 ^ a) (2 ^ n) = Returns (set_bit a c)"
    by (simp add: set_bit_eq_or)
  have col: "check_index c (2 ^ n) = Returns c"
    using assms(1,2) by (rule check_index_in_range)
  show ?thesis
    using False by (simp add: creation_body_def mask_test phase dok_setitem_def assms(4,5) row col nz)
qed

lemma creation_loop:
  assumes "a < n"
  shows "\<forall>c \<in> set xs. 0 \<le> c \<and> c < 2 ^ n \<Longrightarrow> dok_rows d = 2 ^ n \<Longrightarrow> dok_cols d = 2 ^ n \<Longrightarrow>
    for_each xs (creation_body (int n) (int a + 1) (push_bit a 1)) d =
    Returns (d\<lparr>dok_items := (\<lambda>(r, c).
       if c \<in> set xs \<and> \<not> bit c a \<and> r = set_bit a c then Some (sign_above n a c)
       else dok_items d (r, c))\<rparr>)"
proof (induction xs arbitrary: d)
  case Nil
  then show ?case by simp
next
  case (Cons x xs)
  let ?d' = "if bit x a then d
      else d\<lparr>dok_items := (dok_items d)((set_bit a x, x) \<mapsto> sign_above n a x)\<rparr>"
  have body: "creation_body (int n) (int a + 1) (push_bit a 1) x d = Returns ?d'"
    using Cons.prems assms by (intro creation_body_value) auto
  have dims: "dok_rows ?d' = 2 ^ n" "dok_cols ?d' = 2 ^ n"
    using Cons.prems by auto
  have rest: "\<forall>c \<in> set xs. 0 \<le> c \<and> c < 2 ^ n"
    using Cons.prems by simp
  have items: "(\<lambda>(r, c). if c \<in> set xs \<and> \<not> bit c a \<and> r = set_bit a c
        then Some (sign_above n a c) else dok_items ?d' (r, c)) =
      (\<lambda>(r, c). if c \<in> set (x # xs) \<and> \<not> bit c a \<and> r = set_bit a c
        then Some (sign_above n a c) else dok_items d (r, c))"
    by (auto simp add: fun_eq_iff)
  show ?case
    unfolding for_each.simps body then_do.simps Cons.IH [OF rest dims] items [symmetric]
    by (cases "bit x a") simp_all
qed


lemma set_py_range: "set (py_range m) = {0..<m}"
  by (cases "0 \<le> m") (simp_all add: py_range_def image_int_atLeastLessThan)

lemma creation_value:
  assumes "1 \<le> i" "i \<le> N"
  shows "creation N i = Returns (creation_matrix (nat N) (nat (i - 1)))"
proof -
  define n where "n = nat N"
  define a where "a = nat (i - 1)"
  have N: "N = int n" and i: "i = int a + 1" and an: "a < n"
    using assms by (auto simp add: n_def a_def)
  have range: "\<forall>c \<in> set (py_range (2 ^ n)). 0 \<le> c \<and> c < 2 ^ n"
    by (simp add: set_py_range)
  have loop: "for_each (py_range (2 ^ n)) (creation_body (int n) (int a + 1) (push_bit a 1))
       (new_dok_matrix (2 ^ n) (2 ^ n)) =
     Returns ((new_dok_matrix (2 ^ n) (2 ^ n))\<lparr>dok_items := (\<lambda>(r, c).
       if c \<in> set (py_range (2 ^ n)) \<and> \<not> bit c a \<and> r = set_bit a c then Some (sign_above n a c)
       else dok_items (new_dok_matrix (2 ^ n) (2 ^ n)) (r, c))\<rparr>)"
    by (rule creation_loop [OF an range]) (simp_all add: new_dok_matrix_def)
  have frozen: "tocsc ((new_dok_matrix (2 ^ n) (2 ^ n))\<lparr>dok_items := (\<lambda>(r, c).
       if c \<in> set (py_range (2 ^ n)) \<and> \<not> bit c a \<and> r = set_bit a c then Some (sign_above n a c)
       else dok_items (new_dok_matrix (2 ^ n) (2 ^ n)) (r, c))\<rparr>) = creation_matrix n a"
    by (auto simp add: tocsc_def new_dok_matrix_def creation_matrix_def creation_entry_def
        set_py_range fun_eq_iff)
  have shift: "py_lshift 1 (int a + 1 - 1) = Returns (push_bit a 1)"
    by (simp add: py_lshift_def)
  have "creation (int n) (int a + 1) = Returns (creation_matrix n a)"
    unfolding creation_def Let_def shift
    by (simp only: nat_int then_do.simps loop frozen) simp
  then show ?thesis
    by (simp add: N i flip: n_def a_def)
qed

section \<open>Bits, signs and sums with one term\<close>

lemma set_unset_bit: "bit r a \<Longrightarrow> set_bit a (unset_bit a r) = (r::int)"
  by (rule bit_eqI) (auto simp add: bit_simps)

lemma unset_set_bit: "\<not> bit c a \<Longrightarrow> unset_bit a (set_bit a c) = (c::int)"
  by (rule bit_eqI) (auto simp add: bit_simps)

lemma window_popcount_card:
  "window_popcount c lo hi = card {k. lo \<le> k \<and> k < hi \<and> bit c k}"
proof -
  have "{k. bit c k} \<inter> set [lo..<hi] = {k. lo \<le> k \<and> k < hi \<and> bit c k}"
    by auto
  then show ?thesis
    by (simp add: window_popcount_def distinct_length_filter)
qed

lemma window_popcount_set_bit_outside:
  "b < lo \<or> hi \<le> b \<Longrightarrow> window_popcount (set_bit b c) lo hi = window_popcount (c::int) lo hi"
  unfolding window_popcount_def by (intro arg_cong [where f = length] filter_cong) (auto simp add: bit_simps)

lemma window_popcount_set_bit_inside:
  assumes "lo \<le> b" "b < hi" "\<not> bit (c::int) b"
  shows "window_popcount (set_bit b c) lo hi = Suc (window_popcount c lo hi)"
proof -
  have "{k. lo \<le> k \<and> k < hi \<and> bit (set_bit b c) k} = insert b {k. lo \<le> k \<and> k < hi \<and> bit c k}"
    using assms by (auto simp add: bit_simps)
  moreover have "b \<notin> {k. lo \<le> k \<and> k < hi \<and> bit c k}"
    using assms by simp
  moreover have "finite {k. lo \<le> k \<and> k < hi \<and> bit c k}"
    by simp
  ultimately show ?thesis
    by (simp add: window_popcount_card)
qed

lemma sign_above_set_bit_outside:
  "b \<le> a \<or> n \<le> b \<Longrightarrow> sign_above n a (set_bit b c) = sign_above n a c"
  using window_popcount_set_bit_outside [of b "Suc a" n c] by (auto simp add: sign_above_def)

lemma sign_above_set_bit_inside:
  "a < b \<Longrightarrow> b < n \<Longrightarrow> \<not> bit c b \<Longrightarrow> sign_above n a (set_bit b c) = - sign_above n a c"
  by (simp add: sign_above_def window_popcount_set_bit_inside)

lemma sign_above_square: "sign_above n a c * sign_above n a c = 1"
  by (simp add: sign_above_def flip: power_add mult_2)

lemma sum_single:
  fixes f :: "int \<Rightarrow> int"
  assumes "finite S" "\<And>k. k \<in> S \<Longrightarrow> k \<noteq> k0 \<Longrightarrow> f k = 0"
  shows "sum f S = (if k0 \<in> S then f k0 else 0)"
proof -
  have "sum f S = (\<Sum>k\<in>S. if k = k0 then f k0 else 0)"
    using assms(2) by (intro sum.cong) auto
  then show ?thesis
    using assms(1) by (simp add: sum.delta)
qed

lemma creation_row_sum:
  assumes "0 \<le> r" "r < 2 ^ n"
  shows "(\<Sum>k \<in> {0..<2 ^ n}. creation_entry n a r k * X k) =
    (if bit r a then sign_above n a (unset_bit a r) * X (unset_bit a r) else 0)"
proof -
  let ?k0 = "unset_bit a r"
  have in_range: "?k0 \<in> {0..<2 ^ n}"
    using unset_bit_in_range [OF assms] by simp
  have "creation_entry n a r k * X k = 0" if "k \<noteq> ?k0" for k
    using that by (auto simp add: creation_entry_def unset_set_bit)
  then have "(\<Sum>k \<in> {0..<2 ^ n}. creation_entry n a r k * X k) = creation_entry n a r ?k0 * X ?k0"
    using in_range sum_single [of "{0..<2 ^ n}" ?k0 "\<lambda>k. creation_entry n a r k * X k"] by simp
  also have "creation_entry n a r ?k0 = (if bit r a then sign_above n a ?k0 else 0)"
  proof (cases "bit r a")
    case True
    then show ?thesis
      using in_range by (simp add: creation_entry_def set_unset_bit bit_simps)
  next
    case False
    then have "r \<noteq> set_bit a ?k0"
      by (metis bit_set_bit_iff possible_bit_int)
    with False show ?thesis
      by (simp add: creation_entry_def)
  qed
  finally show ?thesis by simp
qed

lemma creation_col_sum:
  assumes "0 \<le> r" "r < 2 ^ n" "a < n"
  shows "(\<Sum>k \<in> {0..<2 ^ n}. creation_entry n a k r * X k) =
    (if bit r a then 0 else sign_above n a r * X (set_bit a r))"
proof -
  let ?k0 = "set_bit a r"
  have in_range: "?k0 \<in> {0..<2 ^ n}"
    using set_bit_in_range [OF assms] by simp
  have "creation_entry n a k r * X k = 0" if "k \<noteq> ?k0" for k
    using that by (auto simp add: creation_entry_def)
  then have "(\<Sum>k \<in> {0..<2 ^ n}. creation_entry n a k r * X k) = creation_entry n a ?k0 r * X ?k0"
    using in_range sum_single [of "{0..<2 ^ n}" ?k0 "\<lambda>k. creation_entry n a k r * X k"] by simp
  also have "creation_entry n a ?k0 r = (if bit r a then 0 else sign_above n a r)"
    using assms by (auto simp add: creation_entry_def)
  finally show ?thesis by simp
qed

lemma sign_exchange:
  assumes "a \<noteq> b" "a < n" "b < n" "\<not> bit k a" "\<not> bit k b"
  shows "(sign_above n a (set_bit b k) = - sign_above n a k \<and>
          sign_above n b (set_bit a k) = sign_above n b k) \<or>
         (sign_above n a (set_bit b k) = sign_above n a k \<and>
          sign_above n b (set_bit a k) = - sign_above n b k)"
proof (cases "a < b")
  case True
  then show ?thesis
    using assms by (simp add: sign_above_set_bit_inside sign_above_set_bit_outside)
next
  case False
  then have "b < a" using assms(1) by simp
  then show ?thesis
    using assms by (simp add: sign_above_set_bit_inside sign_above_set_bit_outside)
qed

lemma set_bit_commute: "set_bit a (set_bit b k) = set_bit b (set_bit a (k::int))"
  by (rule bit_eqI) (auto simp add: bit_simps)

lemma two_steps_up:
  assumes "a \<noteq> b"
  shows "(bit r a \<and> \<not> bit c b \<and> unset_bit a r = set_bit b c) =
         (\<not> bit c a \<and> \<not> bit c b \<and> (r::int) = set_bit a (set_bit b c))"
proof
  assume h: "bit r a \<and> \<not> bit c b \<and> unset_bit a r = set_bit b c"
  then have "bit (set_bit b c) a = bit (unset_bit a r) a" by simp
  then have "\<not> bit c a" using assms by (simp add: bit_simps)
  moreover have "r = set_bit a (set_bit b c)"
    using h set_unset_bit [of r a] by simp
  ultimately show "\<not> bit c a \<and> \<not> bit c b \<and> r = set_bit a (set_bit b c)"
    using h by simp
next
  assume h: "\<not> bit c a \<and> \<not> bit c b \<and> r = set_bit a (set_bit b c)"
  then have "\<not> bit (set_bit b c) a" using assms by (simp add: bit_simps)
  then have "unset_bit a r = set_bit b c"
    using h unset_set_bit [of "set_bit b c" a] by simp
  moreover have "bit r a" using h by (simp add: bit_simps)
  ultimately show "bit r a \<and> \<not> bit c b \<and> unset_bit a r = set_bit b c"
    using h by simp
qed

lemma up_then_down:
  assumes "a \<noteq> b"
  shows "(\<not> bit r b \<and> \<not> bit c a \<and> set_bit b r = set_bit a c) =
         (bit r a \<and> \<not> bit r b \<and> (c::int) = set_bit b (unset_bit a r))"
proof
  assume h: "\<not> bit r b \<and> \<not> bit c a \<and> set_bit b r = set_bit a c"
  then have "bit (set_bit b r) a = bit (set_bit a c) a" by simp
  then have ra: "bit r a" using assms by (simp add: bit_simps)
  have "c = unset_bit a (set_bit b r)"
    using h unset_set_bit [of c a] by simp
  also have "\<dots> = set_bit b (unset_bit a r)"
    using assms by (intro bit_eqI) (auto simp add: bit_simps)
  finally show "bit r a \<and> \<not> bit r b \<and> c = set_bit b (unset_bit a r)"
    using h ra by simp
next
  assume h: "bit r a \<and> \<not> bit r b \<and> c = set_bit b (unset_bit a r)"
  then have "set_bit a c = set_bit b (set_bit a (unset_bit a r))"
    by (simp add: set_bit_commute)
  then have "set_bit a c = set_bit b r"
    using h by (simp add: set_unset_bit)
  moreover have "\<not> bit c a" using h assms by (simp add: bit_simps)
  ultimately show "\<not> bit r b \<and> \<not> bit c a \<and> set_bit b r = set_bit a c"
    using h by simp
qed

section \<open>Entries of the products\<close>

lemma creation_creation_term:
  assumes "a \<noteq> b"
  shows "(if bit r a then sign_above n a (unset_bit a r) * creation_entry n b (unset_bit a r) c else 0) =
    (if 0 \<le> c \<and> c < 2 ^ n \<and> \<not> bit c a \<and> \<not> bit c b \<and> r = set_bit a (set_bit b c)
     then sign_above n a (set_bit b c) * sign_above n b c else 0)"
proof (cases "0 \<le> c \<and> c < 2 ^ n")
  case True
  show ?thesis
  proof (cases "bit r a \<and> \<not> bit c b \<and> unset_bit a r = set_bit b c")
    case yes: True
    then have "\<not> bit c a \<and> \<not> bit c b \<and> r = set_bit a (set_bit b c)"
      using two_steps_up [OF assms, of r c] by simp
    with yes True show ?thesis
      by (simp add: creation_entry_def)
  next
    case no: False
    then have "\<not> (\<not> bit c a \<and> \<not> bit c b \<and> r = set_bit a (set_bit b c))"
      using two_steps_up [OF assms, of r c] by simp
    with no True show ?thesis
      by (auto simp add: creation_entry_def)
  qed
next
  case False
  then show ?thesis
    by (auto simp add: creation_entry_def)
qed

lemma creation_creation_cancel:
  assumes "a \<noteq> b" "a < n" "b < n"
  shows "(if bit r a then sign_above n a (unset_bit a r) * creation_entry n b (unset_bit a r) c else 0) +
    (if bit r b then sign_above n b (unset_bit b r) * creation_entry n a (unset_bit b r) c else 0) = 0"
proof -
  have ba: "b \<noteq> a" using assms(1) by simp
  show ?thesis
    unfolding creation_creation_term [OF assms(1)] creation_creation_term [OF ba]
    using sign_exchange [OF assms(1-3), of c]
    by (auto simp add: set_bit_commute [of b a])
qed

lemma creation_annihilation_cancel:
  assumes "a \<noteq> b" "a < n" "b < n" "0 \<le> r" "r < 2 ^ n"
  shows "(if bit r a then sign_above n a (unset_bit a r) * creation_entry n b c (unset_bit a r) else 0) +
    (if bit r b then 0 else sign_above n b r * creation_entry n a (set_bit b r) c) = 0"
proof (cases "bit r a \<and> \<not> bit r b \<and> c = set_bit b (unset_bit a r)")
  case True
  let ?k = "unset_bit a r"
  have k: "0 \<le> ?k" "?k < 2 ^ n" "\<not> bit ?k a" "\<not> bit ?k b"
    using True unset_bit_in_range [OF assms(4,5), of a] by (simp_all add: bit_simps)
  have r: "r = set_bit a ?k"
    using True by (simp add: set_unset_bit)
  have c: "0 \<le> c" "c < 2 ^ n" "\<not> bit c a"
    using True set_bit_in_range [OF k(1,2) assms(3)] assms(1) by (simp_all add: bit_simps)
  have up: "set_bit b r = set_bit a c"
    using True up_then_down [OF assms(1), of r c] by simp
  have first: "creation_entry n b c ?k = sign_above n b ?k"
    using True k by (simp add: creation_entry_def)
  have second: "creation_entry n a (set_bit b r) c = sign_above n a c"
    using c up by (simp add: creation_entry_def)
  have "sign_above n a ?k * sign_above n b ?k +
      sign_above n b (set_bit a ?k) * sign_above n a (set_bit b ?k) = 0"
    using sign_exchange [OF assms(1-3) k(3,4)] by auto
  then show ?thesis
    using True r first second by simp
next
  case False
  then have no: "\<not> (\<not> bit r b \<and> \<not> bit c a \<and> set_bit b r = set_bit a c)"
    using up_then_down [OF assms(1), of r c] by simp
  have first: "bit r a \<Longrightarrow> creation_entry n b c (unset_bit a r) = 0"
    using False assms(1) by (auto simp add: creation_entry_def bit_simps)
  have second: "\<not> bit r b \<Longrightarrow> creation_entry n a (set_bit b r) c = 0"
    using no by (auto simp add: creation_entry_def)
  show ?thesis
    using first second by simp
qed

lemma creation_annihilation_unit:
  assumes "a < n" "0 \<le> r" "r < 2 ^ n" "0 \<le> c" "c < 2 ^ n"
  shows "(if bit r a then sign_above n a (unset_bit a r) * creation_entry n a c (unset_bit a r) else 0) =
      (if bit r a \<and> r = c then 1 else 0)"
    and "(if bit r a then 0 else sign_above n a r * creation_entry n a (set_bit a r) c) =
      (if \<not> bit r a \<and> r = c then 1 else 0)"
proof -
  let ?k = "unset_bit a r"
  have k: "0 \<le> ?k" "?k < 2 ^ n" "\<not> bit ?k a"
    using unset_bit_in_range [OF assms(2,3), of a] by (simp_all add: bit_simps)
  have "creation_entry n a c ?k = (if c = r then sign_above n a ?k else 0)" if "bit r a"
    using that k by (simp add: creation_entry_def set_unset_bit)
  then show "(if bit r a then sign_above n a ?k * creation_entry n a c ?k else 0) =
      (if bit r a \<and> r = c then 1 else 0)"
    by (auto simp add: sign_above_square)
  have "creation_entry n a (set_bit a r) c = (if c = r then sign_above n a r else 0)" if "\<not> bit r a"
  proof (cases "c = r")
    case True
    then show ?thesis using that assms by (simp add: creation_entry_def)
  next
    case False
    have "set_bit a r \<noteq> set_bit a c" if "\<not> bit c a"
      using that \<open>\<not> bit r a\<close> False unset_set_bit [of r a] unset_set_bit [of c a] by metis
    then show ?thesis using False by (auto simp add: creation_entry_def)
  qed
  then show "(if bit r a then 0 else sign_above n a r * creation_entry n a (set_bit a r) c) =
      (if \<not> bit r a \<and> r = c then 1 else 0)"
    by (auto simp add: sign_above_square)
qed

section \<open>Products of the closed-form matrices\<close>

lemma creation_matrix_sel:
  "nrows (creation_matrix n a) = 2 ^ n" "ncols (creation_matrix n a) = 2 ^ n"
  "entry (creation_matrix n a) = creation_entry n a"
  by (simp_all add: creation_matrix_def)

lemma getH_sel:
  "nrows (getH m) = ncols m" "ncols (getH m) = nrows m" "entry (getH m) r c = entry m c r"
  by (simp_all add: getH_def)

lemma matmul_creation:
  assumes "nrows b = 2 ^ n"
  shows "matmul (creation_matrix n a) b = Returns \<lparr>nrows = 2 ^ n, ncols = ncols b,
    entry = (\<lambda>r c. if 0 \<le> r \<and> r < 2 ^ n \<and> 0 \<le> c \<and> c < ncols b
       then (if bit r a then sign_above n a (unset_bit a r) * entry b (unset_bit a r) c else 0)
       else 0)\<rparr>"
proof -
  have "(if 0 \<le> r \<and> r < 2 ^ n \<and> 0 \<le> c \<and> c < ncols b
        then (\<Sum>k \<in> {0..<2 ^ n}. creation_entry n a r k * entry b k c) else 0) =
      (if 0 \<le> r \<and> r < 2 ^ n \<and> 0 \<le> c \<and> c < ncols b
       then (if bit r a then sign_above n a (unset_bit a r) * entry b (unset_bit a r) c else 0)
       else 0)" for r c
    using creation_row_sum [of r n a "\<lambda>k. entry b k c"] by simp
  then show ?thesis
    using assms by (simp add: matmul_def creation_matrix_sel cong: if_cong)
qed

lemma matmul_adjoint:
  assumes "nrows b = 2 ^ n" "a < n"
  shows "matmul (getH (creation_matrix n a)) b = Returns \<lparr>nrows = 2 ^ n, ncols = ncols b,
    entry = (\<lambda>r c. if 0 \<le> r \<and> r < 2 ^ n \<and> 0 \<le> c \<and> c < ncols b
       then (if bit r a then 0 else sign_above n a r * entry b (set_bit a r) c)
       else 0)\<rparr>"
proof -
  have "(if 0 \<le> r \<and> r < 2 ^ n \<and> 0 \<le> c \<and> c < ncols b
        then (\<Sum>k \<in> {0..<2 ^ n}. creation_entry n a k r * entry b k c) else 0) =
      (if 0 \<le> r \<and> r < 2 ^ n \<and> 0 \<le> c \<and> c < ncols b
       then (if bit r a then 0 else sign_above n a r * entry b (set_bit a r) c)
       else 0)" for r c
    using creation_col_sum [of r n a "\<lambda>k. entry b k c"] assms(2) by simp
  then show ?thesis
    using assms by (simp add: matmul_def creation_matrix_sel getH_sel cong: if_cong)
qed

lemma anticommutator_creation_creation:
  assumes "a \<noteq> b" "a < n" "b < n"
  shows "anticommutator (creation_matrix n a) (creation_matrix n b) = Returns (zeros (2 ^ n))"
proof -
  have ba: "b \<noteq> a" using assms(1) by simp
  have rows: "nrows (creation_matrix n a) = 2 ^ n" "nrows (creation_matrix n b) = 2 ^ n"
    by (simp_all add: creation_matrix_def)
  have "(if 0 \<le> r \<and> r < 2 ^ n \<and> 0 \<le> c \<and> c < (2::int) ^ n
       then (if bit r a then sign_above n a (unset_bit a r) * creation_entry n b (unset_bit a r) c else 0)
       else 0) +
      (if 0 \<le> r \<and> r < 2 ^ n \<and> 0 \<le> c \<and> c < (2::int) ^ n
       then (if bit r b then sign_above n b (unset_bit b r) * creation_entry n a (unset_bit b r) c else 0)
       else 0) = 0" for r c
    using creation_creation_cancel [OF assms, of r c] by simp
  then show ?thesis
    unfolding anticommutator_def matmul_creation [OF rows(2)] matmul_creation [OF rows(1)] then_do.simps
    by (simp add: matadd_def zeros_def creation_matrix_sel fun_eq_iff cong: if_cong)
qed

lemma anticommutator_creation_annihilation:
  assumes "a < n" "b < n"
  shows "anticommutator (creation_matrix n a) (getH (creation_matrix n b)) =
    Returns (if a = b then identity (2 ^ n) else zeros (2 ^ n))"
proof -
  have rows: "nrows (getH (creation_matrix n b)) = 2 ^ n" "nrows (creation_matrix n a) = 2 ^ n"
    by (simp_all add: creation_matrix_def getH_def)
  have sum: "(if 0 \<le> r \<and> r < 2 ^ n \<and> 0 \<le> c \<and> c < (2::int) ^ n
       then (if bit r a then sign_above n a (unset_bit a r) * creation_entry n b c (unset_bit a r) else 0)
       else 0) +
      (if 0 \<le> r \<and> r < 2 ^ n \<and> 0 \<le> c \<and> c < (2::int) ^ n
       then (if bit r b then 0 else sign_above n b r * creation_entry n a (set_bit b r) c)
       else 0) = (if a = b then (if 0 \<le> r \<and> r < 2 ^ n \<and> r = c then 1 else 0) else 0)" for r c
  proof (cases "0 \<le> r \<and> r < 2 ^ n \<and> 0 \<le> c \<and> c < (2::int) ^ n")
    case True
    show ?thesis
    proof (cases "a = b")
      case same: True
      show ?thesis
        using True creation_annihilation_unit [of a n r c] assms(1) unfolding same [symmetric]
        by auto
    next
      case False
      then show ?thesis
        using True creation_annihilation_cancel [of a b n r c] assms by simp
    qed
  next
    case False
    then show ?thesis by auto
  qed
  show ?thesis
    unfolding anticommutator_def matmul_creation [OF rows(1)] matmul_adjoint [OF rows(2) assms(2)] then_do.simps
    using sum
    by (simp add: matadd_def zeros_def identity_def getH_sel creation_matrix_sel fun_eq_iff cong: if_cong)
qed

section \<open>The algebra of the operators\<close>

lemma valid_indices:
  assumes "1 \<le> i" "i \<le> N"
  shows "nat (i - 1) < nat N"
  using assms by simp

text \<open>
  Claim C1. For \<open>N \<ge> 1\<close> and modes \<open>i\<close>, \<open>j\<close> from 1 to \<open>N\<close>, the matrix
  \<open>creation(N,i) \<cdot> annihilation(N,j) + annihilation(N,j) \<cdot> creation(N,i)\<close> is the identity
  of dimension \<open>2^N\<close> when \<open>i = j\<close> and the zero matrix otherwise.
\<close>

theorem canonical_anticommutation:
  assumes "1 \<le> N" "1 \<le> i" "i \<le> N" "1 \<le> j" "j \<le> N"
  shows "then_do (creation N i) (\<lambda>c. then_do (annihilation N j) (\<lambda>a. anticommutator c a)) =
    Returns (if i = j then identity (2 ^ nat N) else zeros (2 ^ nat N))"
proof -
  have eq: "(nat (i - 1) = nat (j - 1)) = (i = j)"
    using assms by auto
  show ?thesis
    using anticommutator_creation_annihilation [OF valid_indices [OF assms(2,3)] valid_indices [OF assms(4,5)]]
    by (simp add: annihilation_def creation_value [OF assms(2,3)] creation_value [OF assms(4,5)] eq)
qed

theorem canonical_anticommutation_witness:
  "(1::int) \<le> 2 \<and> (1::int) \<le> 1 \<and> (1::int) \<le> 2 \<and> (1::int) \<le> 2 \<and> (2::int) \<le> 2 \<and>
   then_do (creation 2 1) (\<lambda>c. then_do (annihilation 2 2) (\<lambda>a. anticommutator c a)) =
    Returns (if (1::int) = 2 then identity (2 ^ nat 2) else zeros (2 ^ nat 2))"
  using canonical_anticommutation [of 2 1 2] by simp

text \<open>
  Claim C8. For \<open>N \<ge> 1\<close> and distinct modes \<open>i\<close>, \<open>j\<close> from 1 to \<open>N\<close>, the matrix
  \<open>creation(N,i) \<cdot> creation(N,j) + creation(N,j) \<cdot> creation(N,i)\<close> is the zero matrix of
  dimension \<open>2^N\<close>.
\<close>

theorem creation_anticommutation:
  assumes "1 \<le> N" "1 \<le> i" "i \<le> N" "1 \<le> j" "j \<le> N" "i \<noteq> j"
  shows "then_do (creation N i) (\<lambda>ci. then_do (creation N j) (\<lambda>cj. anticommutator ci cj)) =
    Returns (zeros (2 ^ nat N))"
proof -
  have ne: "nat (i - 1) \<noteq> nat (j - 1)"
    using assms by auto
  show ?thesis
    using anticommutator_creation_creation [OF ne valid_indices [OF assms(2,3)] valid_indices [OF assms(4,5)]]
    by (simp add: creation_value [OF assms(2,3)] creation_value [OF assms(4,5)])
qed

theorem creation_anticommutation_witness:
  "(1::int) \<le> 3 \<and> (1::int) \<le> 1 \<and> (1::int) \<le> 3 \<and> (1::int) \<le> 3 \<and> (3::int) \<le> 3 \<and> (1::int) \<noteq> 3 \<and>
   then_do (creation 3 1) (\<lambda>ci. then_do (creation 3 3) (\<lambda>cj. anticommutator ci cj)) =
    Returns (zeros (2 ^ nat 3))"
  using creation_anticommutation [of 3 1 3] by simp

text \<open>
  Claim C6. For valid arguments \<open>annihilation(N,i)\<close> is the transpose of
  \<open>creation(N,i)\<close>: the value of the creation matrix at (row, col) is the value of the
  annihilation matrix at (col, row), at every position, so nothing else is non-zero.
\<close>

theorem annihilation_transpose:
  assumes "1 \<le> N" "1 \<le> i" "i \<le> N"
  shows "\<exists>c a. creation N i = Returns c \<and> annihilation N i = Returns a \<and>
    nrows a = ncols c \<and> ncols a = nrows c \<and> (\<forall>row col. entry a col row = entry c row col)"
  by (simp add: annihilation_def creation_value [OF assms(2,3)] getH_sel)

theorem annihilation_transpose_witness:
  "(1::int) \<le> 2 \<and> (1::int) \<le> 2 \<and> (2::int) \<le> 2 \<and>
   (\<exists>c a. creation 2 2 = Returns c \<and> annihilation 2 2 = Returns a \<and>
    nrows a = ncols c \<and> ncols a = nrows c \<and> (\<forall>row col. entry a col row = entry c row col))"
  using annihilation_transpose [of 2 2] by simp

text \<open>
  Claim C5. For valid arguments \<open>creation(N,i)\<close> has dimension \<open>2^N\<close>; a column
  \<open>c\<close> with bit \<open>i - 1\<close> set is empty; a column with the bit unset holds the sign
  factor of \<open>(c, N, i)\<close>, which is not zero, in row \<open>c | (1 << (i - 1))\<close> and zero in
  every other row. So a column has at most one non-zero entry and the diagonal is zero.
\<close>

theorem creation_columns:
  assumes "1 \<le> N" "1 \<le> i" "i \<le> N"
  shows "\<exists>m. creation N i = Returns m \<and> nrows m = 2 ^ nat N \<and> ncols m = 2 ^ nat N \<and>
    (\<forall>c. 0 \<le> c \<and> c < 2 ^ nat N \<longrightarrow>
       (if bit c (nat (i - 1)) then \<forall>r. entry m r c = 0
        else anticommutation_factor c N i = Returns (entry m (c OR push_bit (nat (i - 1)) 1) c)
           \<and> entry m (c OR push_bit (nat (i - 1)) 1) c \<noteq> 0
           \<and> (\<forall>r. r \<noteq> c OR push_bit (nat (i - 1)) 1 \<longrightarrow> entry m r c = 0))
       \<and> (\<forall>r r'. entry m r c \<noteq> 0 \<and> entry m r' c \<noteq> 0 \<longrightarrow> r = r')
       \<and> entry m c c = 0)"
proof -
  let ?n = "nat N" and ?a = "nat (i - 1)"
  let ?m = "creation_matrix ?n ?a"
  have an: "?a < ?n"
    by (rule valid_indices [OF assms(2,3)])
  have cv: "creation N i = Returns ?m"
    by (rule creation_value [OF assms(2,3)])
  have ends: "nat (min N i) = Suc ?a" "nat (max N i) = ?n"
    using assms by auto
  have phase: "anticommutation_factor c N i = Returns (sign_above ?n ?a c)" for c
    using anticommutation_factor_value [of N i c] assms
    unfolding ends sign_above_def by simp
  have mask: "c OR push_bit ?a 1 = set_bit ?a c" for c :: int
    by (simp only: set_bit_eq_or)
  have col: "(if bit c ?a then \<forall>r. creation_entry ?n ?a r c = 0
        else anticommutation_factor c N i = Returns (creation_entry ?n ?a (set_bit ?a c) c)
           \<and> creation_entry ?n ?a (set_bit ?a c) c \<noteq> 0
           \<and> (\<forall>r. r \<noteq> set_bit ?a c \<longrightarrow> creation_entry ?n ?a r c = 0))
       \<and> (\<forall>r r'. creation_entry ?n ?a r c \<noteq> 0 \<and> creation_entry ?n ?a r' c \<noteq> 0 \<longrightarrow> r = r')
       \<and> creation_entry ?n ?a c c = 0" if range: "0 \<le> c \<and> c < 2 ^ ?n" for c
  proof -
    have off: "creation_entry ?n ?a r c = 0" if "r \<noteq> set_bit ?a c" for r
      using that by (simp add: creation_entry_def)
    have occupied: "creation_entry ?n ?a r c = 0" if "bit c ?a" for r
      using that by (simp add: creation_entry_def)
    have on: "creation_entry ?n ?a (set_bit ?a c) c = sign_above ?n ?a c" if "\<not> bit c ?a"
      using that range by (simp add: creation_entry_def)
    have nz: "sign_above ?n ?a c \<noteq> 0"
      by (simp add: sign_above_def)
    have diag: "creation_entry ?n ?a c c = 0"
    proof (cases "bit c ?a")
      case True
      then show ?thesis by (rule occupied)
    next
      case False
      then have "c \<noteq> set_bit ?a c"
        by (metis bit_set_bit_iff possible_bit_int)
      then show ?thesis by (rule off)
    qed
    have one: "r = r'" if "creation_entry ?n ?a r c \<noteq> 0 \<and> creation_entry ?n ?a r' c \<noteq> 0" for r r'
      using that off [of r] off [of r'] by metis
    have uniq: "\<forall>r r'. creation_entry ?n ?a r c \<noteq> 0 \<and> creation_entry ?n ?a r' c \<noteq> 0 \<longrightarrow> r = r'"
      using one by blast
    have first: "if bit c ?a then \<forall>r. creation_entry ?n ?a r c = 0
        else anticommutation_factor c N i = Returns (creation_entry ?n ?a (set_bit ?a c) c)
           \<and> creation_entry ?n ?a (set_bit ?a c) c \<noteq> 0
           \<and> (\<forall>r. r \<noteq> set_bit ?a c \<longrightarrow> creation_entry ?n ?a r c = 0)"
    proof (cases "bit c ?a")
      case True
      have "\<forall>r. creation_entry ?n ?a r c = 0"
        using occupied [OF True] by blast
      then show ?thesis
        using True by simp
    next
      case False
      have written: "anticommutation_factor c N i = Returns (creation_entry ?n ?a (set_bit ?a c) c)"
        "creation_entry ?n ?a (set_bit ?a c) c \<noteq> 0"
        using on [OF False] phase [of c] nz by simp_all
      have others: "\<forall>r. r \<noteq> set_bit ?a c \<longrightarrow> creation_entry ?n ?a r c = 0"
        using off by blast
      show ?thesis
        unfolding if_not_P [OF False] by (intro conjI) (rule written others)+
    qed
    show ?thesis
      by (intro conjI) (rule first uniq diag)+
  qed
  have cols: "\<forall>c. 0 \<le> c \<and> c < 2 ^ ?n \<longrightarrow>
       (if bit c ?a then \<forall>r. entry ?m r c = 0
        else anticommutation_factor c N i = Returns (entry ?m (c OR push_bit ?a 1) c)
           \<and> entry ?m (c OR push_bit ?a 1) c \<noteq> 0
           \<and> (\<forall>r. r \<noteq> c OR push_bit ?a 1 \<longrightarrow> entry ?m r c = 0))
       \<and> (\<forall>r r'. entry ?m r c \<noteq> 0 \<and> entry ?m r' c \<noteq> 0 \<longrightarrow> r = r')
       \<and> entry ?m c c = 0"
    unfolding creation_matrix_sel mask by (intro allI impI) (rule col)
  show ?thesis
    by (intro exI [of _ ?m] conjI) (rule cv creation_matrix_sel cols)+
qed

theorem creation_columns_witness:
  "(1::int) \<le> 2 \<and> (1::int) \<le> 1 \<and> (1::int) \<le> 2 \<and>
   (\<exists>m. creation 2 1 = Returns m \<and> nrows m = 2 ^ nat 2 \<and> ncols m = 2 ^ nat 2 \<and>
    (\<forall>c. 0 \<le> c \<and> c < 2 ^ nat 2 \<longrightarrow>
       (if bit c (nat (1 - 1)) then \<forall>r. entry m r c = 0
        else anticommutation_factor c 2 1 = Returns (entry m (c OR push_bit (nat (1 - 1)) 1) c)
           \<and> entry m (c OR push_bit (nat (1 - 1)) 1) c \<noteq> 0
           \<and> (\<forall>r. r \<noteq> c OR push_bit (nat (1 - 1)) 1 \<longrightarrow> entry m r c = 0))
       \<and> (\<forall>r r'. entry m r c \<noteq> 0 \<and> entry m r' c \<noteq> 0 \<longrightarrow> r = r')
       \<and> entry m c c = 0))"
proof -
  have h: "(1::int) \<le> 2" "(1::int) \<le> 1" by simp_all
  show ?thesis
    using h creation_columns [OF h(1) h(2) h(1)] by (intro conjI) assumption+
qed

section \<open>The number operator, invalid arguments and two modes\<close>

lemma transition_same_mode:
  assumes "a < n"
  shows "matmul (creation_matrix n a) (getH (creation_matrix n a)) = Returns (occupation_matrix n a)"
proof -
  have rows: "nrows (getH (creation_matrix n a)) = 2 ^ n"
    by (simp add: getH_sel creation_matrix_sel)
  have "(if 0 \<le> r \<and> r < 2 ^ n \<and> 0 \<le> c \<and> c < (2::int) ^ n
       then (if bit r a then sign_above n a (unset_bit a r) * creation_entry n a c (unset_bit a r) else 0)
       else 0) = (if 0 \<le> r \<and> r < 2 ^ n \<and> r = c then (if bit r a then 1 else 0) else 0)" for r c
    using creation_annihilation_unit(1) [OF assms, of r c] by auto
  then show ?thesis
    unfolding matmul_creation [OF rows]
    by (simp add: occupation_matrix_def getH_sel creation_matrix_sel fun_eq_iff cong: if_cong)
qed

lemma occupation_matrix_idempotent:
  "matmul (occupation_matrix n a) (occupation_matrix n a) = Returns (occupation_matrix n a)"
proof -
  let ?d = "\<lambda>r c. if 0 \<le> r \<and> r < 2 ^ n \<and> r = c then (if bit r a then 1 else 0) else (0::int)"
  have "(if 0 \<le> r \<and> r < 2 ^ n \<and> 0 \<le> c \<and> c < 2 ^ n
      then (\<Sum>k \<in> {0..<2 ^ n}. ?d r k * ?d k c) else 0) = ?d r c" for r c :: int
  proof (cases "0 \<le> r \<and> r < 2 ^ n")
    case True
    have "(\<Sum>k \<in> {0..<2 ^ n}. ?d r k * ?d k c) = (if r \<in> {0..<2 ^ n} then ?d r r * ?d r c else 0)"
      by (rule sum_single) auto
    also have "\<dots> = ?d r c"
      using True by auto
    finally have s: "(\<Sum>k \<in> {0..<2 ^ n}. ?d r k * ?d k c) = ?d r c" .
    show ?thesis
      unfolding s using True by auto
  next
    case False
    then show ?thesis by auto
  qed
  then show ?thesis
    by (simp add: matmul_def occupation_matrix_def fun_eq_iff cong: if_cong)
qed

text \<open>
  Claim C7. For valid arguments \<open>transition(N,i,i)\<close> is the diagonal matrix whose entry
  at basis state \<open>s\<close> is the occupation, 0 or 1, of bit \<open>i - 1\<close> of \<open>s\<close>, and its
  product with itself is the same matrix.
\<close>

theorem transition_occupation:
  assumes "1 \<le> N" "1 \<le> i" "i \<le> N"
  shows "transition N i i = Returns (occupation_matrix (nat N) (nat (i - 1))) \<and>
    then_do (transition N i i) (\<lambda>t. matmul t t) = transition N i i"
proof -
  have "transition N i i = Returns (occupation_matrix (nat N) (nat (i - 1)))"
    using transition_same_mode [OF valid_indices [OF assms(2,3)]]
    by (simp add: transition_def annihilation_def creation_value [OF assms(2,3)])
  then show ?thesis
    by (simp add: occupation_matrix_idempotent)
qed

theorem transition_occupation_witness:
  "(1::int) \<le> 3 \<and> (1::int) \<le> 2 \<and> (2::int) \<le> 3 \<and>
   transition 3 2 2 = Returns (occupation_matrix (nat 3) (nat (2 - 1))) \<and>
   then_do (transition 3 2 2) (\<lambda>t. matmul t t) = transition 3 2 2"
proof -
  have h: "(1::int) \<le> 3" "(1::int) \<le> 2" "(2::int) \<le> 3"
    by simp_all
  note t = transition_occupation [OF h]
  show ?thesis
    by (intro conjI h t [THEN conjunct1] t [THEN conjunct2])
qed

lemma creation_rejects:
  assumes "\<not> (1 \<le> i \<and> i \<le> N)"
  shows "\<exists>e. creation N i = Raises e"
proof -
  consider "N < 0" | "0 \<le> N" "i < 1" | "0 \<le> N" "1 \<le> i" "N < i"
    using assms by linarith
  then show ?thesis
  proof cases
    case 1
    then show ?thesis by (simp add: creation_def)
  next
    case 2
    then show ?thesis by (simp add: creation_def py_lshift_def Let_def)
  next
    case 3
    let ?n = "nat N" and ?a = "nat (i - 1)"
    let ?d = "new_dok_matrix (2 ^ ?n) (2 ^ ?n)"
    have le: "?n \<le> ?a" using 3 by simp
    then have big: "(2::int) ^ ?n \<le> 2 ^ ?a"
      by (simp add: power_increasing)
    have shift: "py_lshift 1 (i - 1) = Returns (2 ^ ?a)"
      using 3 by (simp add: py_lshift_def)
    obtain v where phase: "anticommutation_factor 0 N i = Returns v"
      using anticommutation_factor_value [of N i 0] 3 by simp
    have outside: "\<not> ((2::int) ^ ?a < 2 ^ ?n)"
      using big by (simp only: not_less)
    have "check_index (2 ^ ?a) (2 ^ ?n) = Raises IndexError"
      unfolding check_index_def by (rule if_not_P) (use outside in blast)
    then have store: "dok_setitem ?d (0 OR 2 ^ ?a) 0 v = Raises IndexError"
      by (simp add: dok_setitem_def new_dok_matrix_def)
    have test: "NOT (0::int) AND 2 ^ ?a \<noteq> 0"
      by (simp add: mask_test)
    have body: "creation_body N i (2 ^ ?a) 0 ?d = Raises IndexError"
      unfolding creation_body_def using test phase store by simp
    have "(0::nat) < 2 ^ ?n" by simp
    then have "[0..<2 ^ ?n] = 0 # [Suc 0..<2 ^ ?n]"
      by (rule upt_conv_Cons)
    then have range: "py_range (2 ^ ?n) = 0 # map int [Suc 0..<2 ^ ?n]"
      by (simp add: py_range_def nat_power_eq)
    have "for_each (py_range (2 ^ ?n)) (creation_body N i (2 ^ ?a)) ?d = Raises IndexError"
      unfolding range for_each.simps body by simp
    then have "creation N i = Raises IndexError"
      using 3(1) by (simp add: creation_def Let_def shift)
    then show ?thesis by blast
  qed
qed

lemma creation_total: "(\<exists>m. creation N i = Returns m) \<or> (\<exists>e. creation N i = Raises e)"
  using creation_value [of i N] creation_rejects [of i N] by blast

text \<open>
  Claim C9, as amended. There is no explicit validation, and a call whose state index is
  not between 1 and the basis size (which covers every call with a basis size below 1)
  does not return a matrix: the shift, the constructor of the range or the write into the
  matrix raises. This holds for \<open>creation\<close>, for \<open>annihilation\<close> and for
  \<open>transition\<close> with the index in either position.
\<close>

theorem invalid_arguments_raise:
  assumes "\<not> (1 \<le> state_index \<and> state_index \<le> basis_size)"
  shows "(\<exists>e. creation basis_size state_index = Raises e) \<and>
    (\<exists>e. annihilation basis_size state_index = Raises e) \<and>
    (\<exists>e. transition basis_size state_index other = Raises e) \<and>
    (\<exists>e. transition basis_size other state_index = Raises e)"
proof -
  obtain e where e: "creation basis_size state_index = Raises e"
    using creation_rejects [OF assms] by blast
  then have a: "annihilation basis_size state_index = Raises e"
    by (simp add: annihilation_def)
  have "transition basis_size state_index other = Raises e"
    using e by (simp add: transition_def)
  moreover have "\<exists>e'. transition basis_size other state_index = Raises e'"
    using creation_total [of basis_size other] a by (auto simp add: transition_def)
  ultimately show ?thesis
    using e a by blast
qed

theorem invalid_arguments_raise_witness:
  "\<not> ((1::int) \<le> 3 \<and> (3::int) \<le> 2) \<and>
   (\<exists>e. creation 2 3 = Raises e) \<and>
   (\<exists>e. annihilation 2 3 = Raises e) \<and>
   (\<exists>e. transition 2 3 1 = Raises e) \<and>
   (\<exists>e. transition 2 1 3 = Raises e)"
proof -
  have h: "\<not> ((1::int) \<le> 3 \<and> (3::int) \<le> 2)" by simp
  note t = invalid_arguments_raise [OF h, of 1]
  show ?thesis
    using h t by blast
qed

text \<open>
  The claim as stated fails: \<open>creation(1, 0)\<close> computes \<open>1 << -1\<close>, which raises.
\<close>

theorem invalid_index_counterexample: "creation 1 0 = Raises ValueError"
  by (simp add: creation_def py_lshift_def)

lemma four_states: "0 \<le> c \<Longrightarrow> c < 4 \<Longrightarrow> c = 0 \<or> c = 1 \<or> c = 2 \<or> (c::int) = 3"
  by arith

lemma two_mode_signs:
  "sign_above 2 0 0 = 1" "sign_above 2 0 2 = - 1" "sign_above 2 (Suc 0) 0 = 1" "sign_above 2 (Suc 0) 1 = 1"
  by (simp_all add: sign_above_def window_popcount_def) code_simp+

lemma two_mode_rows:
  "set_bit 0 (0::int) = 1" "set_bit 0 (2::int) = 3" "set_bit (Suc 0) (0::int) = 2"
  "set_bit (Suc 0) (1::int) = 3"
  by (simp_all add: set_bit_eq_or)

lemma creation_entry_2_1:
  "creation_entry 2 0 r c = (if r = 1 \<and> c = 0 then 1 else if r = 3 \<and> c = 2 then - 1 else 0)"
proof (cases "0 \<le> c \<and> c < 4")
  case True
  then consider "c = 0" | "c = 1" | "c = 2" | "c = 3"
    using four_states [of c] by blast
  then show ?thesis
    by cases (simp_all add: creation_entry_def two_mode_signs two_mode_rows)
next
  case False
  then show ?thesis
    by (auto simp add: creation_entry_def)
qed

lemma creation_entry_2_2:
  "creation_entry 2 (Suc 0) r c = (if r = 2 \<and> c = 0 \<or> r = 3 \<and> c = 1 then 1 else 0)"
proof (cases "0 \<le> c \<and> c < 4")
  case True
  then consider "c = 0" | "c = 1" | "c = 2" | "c = 3"
    using four_states [of c] by blast
  then show ?thesis
    by cases (simp_all add: creation_entry_def two_mode_signs two_mode_rows)
next
  case False
  then show ?thesis
    by (auto simp add: creation_entry_def)
qed

text \<open>
  Claim C3, as amended. \<open>creation(2,1)\<close> is the 4 by 4 matrix whose only non-zero
  entries are \<open>+1\<close> at (row 1, column 0) and \<open>-1\<close> at (row 3, column 2): in state 2
  the mode above mode 1 is occupied, and the sign flips.
\<close>

theorem creation_2_1_matrix:
  "creation 2 1 = Returns \<lparr>nrows = 4, ncols = 4,
     entry = (\<lambda>r c. if r = 1 \<and> c = 0 then 1 else if r = 3 \<and> c = 2 then - 1 else 0)\<rparr>"
  using creation_value [of 1 2] by (simp add: creation_matrix_def creation_entry_2_1 fun_eq_iff)

text \<open>The claim as stated has \<open>+1\<close> at (3, 2); the code writes \<open>-1\<close> there.\<close>

theorem creation_2_1_counterexample: "entry_at (creation 2 1) 3 2 = Returns (- 1)"
  by code_simp

text \<open>
  Claim C2, as amended. \<open>creation(2,2)\<close> is the 4 by 4 matrix whose only non-zero
  entries are at (row 2, column 0) and (row 3, column 1), and both are \<open>+1\<close>: no mode
  lies above mode 2, so the window of the sign factor is empty.
\<close>

theorem creation_2_2_matrix:
  "creation 2 2 = Returns \<lparr>nrows = 4, ncols = 4,
     entry = (\<lambda>r c. if r = 2 \<and> c = 0 \<or> r = 3 \<and> c = 1 then 1 else 0)\<rparr>"
  using creation_value [of 2 2] by (simp add: creation_matrix_def creation_entry_2_2 fun_eq_iff)

text \<open>The claim as stated has opposite signs at (2, 0) and (3, 1); both are \<open>+1\<close>.\<close>

theorem creation_2_2_counterexample:
  "entry_at (creation 2 2) 2 0 = Returns 1 \<and> entry_at (creation 2 2) 3 1 = Returns 1"
  by code_simp

end
